theory Spec2Isabelle
  imports Main "HOL-Library.AList"
begin

section \<open>Data model of \<open>mac_lookup.py\<close>\<close>

text \<open>
  Strings are lists of characters; a character stands for a Python code point below 256.
  The values that \<open>json.loads\<close> produces are the constructors of \<open>json\<close>: \<open>JNull\<close> is
  Python's \<open>None\<close>, a \<open>JObj\<close> is a dict in insertion order (its keys are strings).
  Floating-point numbers are not used by any function of the script and are left out.
\<close>

datatype json =
    JNull
  | JBool bool
  | JNum int
  | JStr string
  | JArr "json list"
  | JObj "(string \<times> json) list"

text \<open>
  The script raises \<open>ValueError\<close> at five places, told apart here by a constructor that
  carries the values the message is formatted from. \<open>Json_decode_error\<close> is the
  \<open>json.JSONDecodeError\<close> of \<open>json.loads\<close>, a subclass of \<open>ValueError\<close>.
  \<open>AttributeError\<close> and \<open>TypeError\<close> are raised by the interpreter on attribute access
  and assignment; they carry the name of the attribute.
\<close>

datatype value_error =
    Api_key_missing
  | Length_failed string
  | Hex_only_failed string
  | Bad_status string int
  | Json_decode_error string

datatype exn =
    ValueError value_error
  | SystemExit string
  | AttributeError string
  | TypeError string

section \<open>Validation\<close>

text \<open>\<open>if not api_key: raise ValueError(...)\<close>: \<open>None\<close> and the empty string are falsy.\<close>

definition validate_api_key_exists :: "string option \<Rightarrow> exn + unit" where
  "validate_api_key_exists api_key =
     (if api_key = None \<or> api_key = Some [] then Inl (ValueError Api_key_missing)
      else Inr ())"

text \<open>The character class \<open>[0-9A-F:.]\<close>.\<close>

definition hex_or_delim :: "char \<Rightarrow> bool" where
  "hex_or_delim c \<longleftrightarrow>
     (48 \<le> (of_char c :: nat) \<and> (of_char c :: nat) \<le> 57) \<or>
     (65 \<le> (of_char c :: nat) \<and> (of_char c :: nat) \<le> 70) \<or>
     c = CHR '':'' \<or> c = CHR ''.''"

text \<open>
  \<open>$\<close> without the MULTILINE flag holds at the end of the string and just before a
  newline that is the last character.
\<close>

definition at_dollar :: "string \<Rightarrow> nat \<Rightarrow> bool" where
  "at_dollar s i \<longleftrightarrow> i = length s \<or> (Suc i = length s \<and> s ! i = CHR 0x0A)"

text \<open>
  The positions where a match of \<open>^[0-9A-F:.]+$\<close> that starts at position 0 can end:
  after one or more characters of the class, at a position where \<open>$\<close> holds.
\<close>

definition hex_only_match_ends :: "string \<Rightarrow> nat list" where
  "hex_only_match_ends s =
     filter (at_dollar s) [1 ..< Suc (length (takeWhile hex_or_delim s))]"

text \<open>\<open>re.fullmatch\<close>: some match spans the whole string.\<close>

definition fullmatch_hex_only :: "string \<Rightarrow> bool" where
  "fullmatch_hex_only s \<longleftrightarrow> length s \<in> set (hex_only_match_ends s)"

definition validate_hex_only :: "string \<Rightarrow> exn + unit" where
  "validate_hex_only mac =
     (if \<not> fullmatch_hex_only mac then Inl (ValueError (Hex_only_failed mac))
      else Inr ())"

definition validate_mac_length :: "string \<Rightarrow> exn + unit" where
  "validate_mac_length mac =
     (if length mac \<notin> set [12, 17] then Inl (ValueError (Length_failed mac))
      else Inr ())"

text \<open>
  \<open>[check(mac) for check in validation_checks]\<close>: the checks run in list order and the
  first one that raises ends the comprehension.
\<close>

fun run_checks :: "(string \<Rightarrow> exn + unit) list \<Rightarrow> string \<Rightarrow> exn + unit" where
  "run_checks [] mac = Inr ()"
| "run_checks (check # checks) mac =
     (case check mac of Inl e \<Rightarrow> Inl e | Inr _ \<Rightarrow> run_checks checks mac)"

definition validate_mac :: "string \<Rightarrow> exn + unit" where
  "validate_mac mac = run_checks [validate_mac_length, validate_hex_only] mac"

section \<open>String helpers of the Python library\<close>

text \<open>
  \<open>str.strip()\<close> removes the leading and trailing characters for which \<open>str.isspace\<close>
  holds; below 256 these are the code points listed here.
\<close>

definition is_space :: "char \<Rightarrow> bool" where
  "is_space c \<longleftrightarrow> (of_char c :: nat) \<in> set [9, 10, 11, 12, 13, 28, 29, 30, 31, 32, 133, 160]"

definition strip :: "string \<Rightarrow> string" where
  "strip s = rev (dropWhile is_space (rev (dropWhile is_space s)))"

text \<open>
  \<open>s.split(sep)\<close> for a one-character separator: the empty string gives one empty piece,
  and every separator starts a new piece.
\<close>

fun str_split :: "char \<Rightarrow> string \<Rightarrow> string list" where
  "str_split sep [] = [[]]"
| "str_split sep (c # cs) =
     (if c = sep then [] # str_split sep cs
      else (case str_split sep cs of
              [] \<Rightarrow> [[c]]
            | piece # pieces \<Rightarrow> (c # piece) # pieces))"

text \<open>\<open>str.lower()\<close> on code points below 256.\<close>

definition char_lower :: "char \<Rightarrow> char" where
  "char_lower c =
     (let n = (of_char c :: nat)
      in if (65 \<le> n \<and> n \<le> 90) \<or> (192 \<le> n \<and> n \<le> 214) \<or> (216 \<le> n \<and> n \<le> 222)
         then char_of (n + 32) else c)"

definition str_lower :: "string \<Rightarrow> string" where
  "str_lower s = map char_lower s"

section \<open>The result object\<close>

text \<open>
  A \<open>MacAddressIO\<close> instance is its attribute dictionary \<open>__dict__\<close>, in insertion order.
\<close>

type_synonym mac_address_io = "(string \<times> json) list"

text \<open>
  \<open>setattr(self, name, v)\<close> on an instance of a class that defines neither \<open>__slots__\<close> nor
  \<open>__setattr__\<close>. Three names are data descriptors of the type and do not store into the
  dictionary: \<open>__dict__\<close> replaces the whole attribute dictionary when \<open>v\<close> is a dict and
  raises \<open>TypeError\<close> otherwise, \<open>__class__\<close> raises \<open>TypeError\<close> unless \<open>v\<close> is a class
  (which no JSON value is), and \<open>__weakref__\<close> is not writable. Every other name is stored
  in the dictionary: an existing name keeps its place and gets the new value, a new name
  is appended (\<open>AList.update\<close>).
\<close>

definition setattr :: "mac_address_io \<Rightarrow> string \<Rightarrow> json \<Rightarrow> exn + mac_address_io" where
  "setattr self name v =
     (if name = ''__dict__'' then
        (case v of JObj d \<Rightarrow> Inr d | _ \<Rightarrow> Inl (TypeError ''__dict__''))
      else if name = ''__class__'' then Inl (TypeError ''__class__'')
      else if name = ''__weakref__'' then Inl (AttributeError ''__weakref__'')
      else Inr (AList.update name v self))"

text \<open>The names that \<open>setattr\<close> does not store in the attribute dictionary.\<close>

definition descriptor_name :: "string \<Rightarrow> bool" where
  "descriptor_name name \<longleftrightarrow> name \<in> set [''__dict__'', ''__class__'', ''__weakref__'']"

text \<open>
  \<open>{setattr(self, k.lower(), v) for k, v in data.items()}\<close>: the items in the order of the
  dict; the first \<open>setattr\<close> that raises ends the comprehension.
\<close>

fun set_items :: "mac_address_io \<Rightarrow> (string \<times> json) list \<Rightarrow> exn + mac_address_io" where
  "set_items self [] = Inr self"
| "set_items self ((k, v) # items) =
     (case setattr self (str_lower k) v of
        Inl e \<Rightarrow> Inl e
      | Inr self' \<Rightarrow> set_items self' items)"

text \<open>
  \<open>__init__\<close>: \<open>self.mac = mac\<close> on the new object, then the comprehension over
  \<open>data.items()\<close>. Only a dict has \<open>items\<close>; on anything else the call raises
  \<open>AttributeError\<close>.
\<close>

definition MacAddressIO_init :: "string \<Rightarrow> json \<Rightarrow> exn + mac_address_io" where
  "MacAddressIO_init mac data =
     (case setattr [] ''mac'' (JStr mac) of
        Inl e \<Rightarrow> Inl e
      | Inr self \<Rightarrow>
          (case data of
             JObj items \<Rightarrow> set_items self items
           | _ \<Rightarrow> Inl (AttributeError ''items'')))"

text \<open>
  Attribute access \<open>obj.name\<close> for a name that neither the class nor \<open>object\<close> defines
  (the script reads \<open>mac\<close> and \<open>companyname\<close>): the value in the attribute dictionary, and
  \<open>AttributeError\<close> when the name is not there.
\<close>

definition getattr :: "mac_address_io \<Rightarrow> string \<Rightarrow> exn + json" where
  "getattr self name =
     (case map_of self name of None \<Rightarrow> Inl (AttributeError name) | Some v \<Rightarrow> Inr v)"

text \<open>\<open>data.get(key)\<close>: \<open>None\<close> for a missing key; only a dict has \<open>get\<close>.\<close>

definition dict_get :: "json \<Rightarrow> string \<Rightarrow> exn + json" where
  "dict_get data key =
     (case data of
        JObj items \<Rightarrow> (case map_of items key of None \<Rightarrow> Inr JNull | Some v \<Rightarrow> Inr v)
      | _ \<Rightarrow> Inl (AttributeError ''get''))"

section \<open>The network\<close>

text \<open>
  A request is the \<open>search\<close> parameter and the value of the \<open>x-Authentication-Token\<close>
  header; the URL and \<open>output=json\<close> are the same in every request. \<open>requests.get\<close> either
  raises a \<open>RequestException\<close> or returns a response, of which the script reads the status
  code and, through \<open>json.loads\<close>, the text: \<open>Inl msg\<close> when \<open>json.loads\<close> raises
  \<open>JSONDecodeError\<close>, \<open>Inr v\<close> when it returns \<open>v\<close>.
  The network is any function from the requests sent so far, the latest last, to the
  reply to the latest.
\<close>

type_synonym request = "string \<times> string option"

datatype reply =
    Request_exception string
  | Response int "string + json"

type_synonym network = "request list \<Rightarrow> reply"

text \<open>A mocked API that gives the same reply to every request.\<close>

definition replying :: "reply \<Rightarrow> network" where
  "replying r sent = r"

text \<open>The mocked API of the specification's example: HTTP 200 and one vendor field.\<close>

definition acme_api :: network where
  "acme_api =
     replying (Response 200
       (Inr (JObj [(''vendorDetails'', JObj [(''companyName'', JStr ''Acme'')])])))"

text \<open>\<open>make_request\<close> returns its result and the requests sent so far.\<close>

definition make_request ::
  "network \<Rightarrow> string \<Rightarrow> string option \<Rightarrow> request list
     \<Rightarrow> (exn + mac_address_io) \<times> request list" where
  "make_request net mac api_key sent =
     (let sent' = sent @ [(mac, api_key)]
      in (case net sent' of
            Request_exception err \<Rightarrow> Inl (SystemExit err)
          | Response status_code body \<Rightarrow>
              if status_code = 200 then
                (case body of
                   Inl msg \<Rightarrow> Inl (ValueError (Json_decode_error msg))
                 | Inr data \<Rightarrow>
                     (case dict_get data ''vendorDetails'' of
                        Inl e \<Rightarrow> Inl e
                      | Inr vendor_details \<Rightarrow> MacAddressIO_init mac vendor_details))
              else Inl (ValueError (Bad_status mac status_code)),
          sent'))"

section \<open>The batch\<close>

text \<open>
  Iterating over \<open>set(...)\<close> visits every element once, in an order the language does not
  fix. The order is a parameter: any function that lists the elements of its argument
  without repetition.
\<close>

definition set_iteration :: "(string list \<Rightarrow> string list) \<Rightarrow> bool" where
  "set_iteration iter \<longleftrightarrow> (\<forall>xs. distinct (iter xs) \<and> set (iter xs) = set xs)"

text \<open>The \<open>for\<close> loop of \<open>get_mac_details\<close> over the pieces still to visit.\<close>

fun get_mac_details_loop ::
  "network \<Rightarrow> string option \<Rightarrow> string list \<Rightarrow> mac_address_io list \<Rightarrow> request list
     \<Rightarrow> (exn + mac_address_io list) \<times> request list" where
  "get_mac_details_loop net api_key [] mac_results sent = (Inr mac_results, sent)"
| "get_mac_details_loop net api_key (piece # rest) mac_results sent =
     (let mac = strip piece
      in case validate_mac mac of
           Inl e \<Rightarrow> (Inl e, sent)
         | Inr _ \<Rightarrow>
             (case make_request net mac api_key sent of
                (Inl e, sent') \<Rightarrow> (Inl e, sent')
              | (Inr r, sent') \<Rightarrow>
                  get_mac_details_loop net api_key rest (mac_results @ [r]) sent'))"

definition get_mac_details ::
  "(string list \<Rightarrow> string list) \<Rightarrow> network \<Rightarrow> string \<Rightarrow> string option
     \<Rightarrow> (exn + mac_address_io list) \<times> request list" where
  "get_mac_details iter net mac_addresses api_key =
     (case validate_api_key_exists api_key of
        Inl e \<Rightarrow> (Inl e, [])
      | Inr _ \<Rightarrow>
          get_mac_details_loop net api_key (iter (str_split CHR '','' mac_addresses)) [] [])"

section \<open>The command line driver\<close>

text \<open>
  What the script prints: the table (one row of \<open>mac\<close> and \<open>companyname\<close> for each result),
  the no-results line, the message of a \<open>ValueError\<close>, or the two lines of the
  \<open>SystemExit\<close> handler.
\<close>

datatype printed =
    Table "(json \<times> json) list"
  | No_results_found
  | Value_error_message value_error
  | Api_exception_message string

fun table_rows :: "mac_address_io list \<Rightarrow> exn + (json \<times> json) list" where
  "table_rows [] = Inr []"
| "table_rows (result # results) =
     (case getattr result ''mac'' of
        Inl e \<Rightarrow> Inl e
      | Inr m \<Rightarrow>
          (case getattr result ''companyname'' of
             Inl e \<Rightarrow> Inl e
           | Inr c \<Rightarrow>
               (case table_rows results of
                  Inl e \<Rightarrow> Inl e
                | Inr rows \<Rightarrow> Inr ((m, c) # rows))))"

text \<open>The body of the \<open>try\<close> statement; \<open>mac_arg\<close> is \<open>args.mac\<close>, already upper-cased.\<close>

definition main_try ::
  "(string list \<Rightarrow> string list) \<Rightarrow> network \<Rightarrow> string \<Rightarrow> string option \<Rightarrow> exn + printed" where
  "main_try iter net mac_arg API_KEY =
     (case fst (get_mac_details iter net mac_arg API_KEY) of
        Inl e \<Rightarrow> Inl e
      | Inr results \<Rightarrow>
          if results \<noteq> [] then
            (case table_rows results of Inl e \<Rightarrow> Inl e | Inr rows \<Rightarrow> Inr (Table rows))
          else Inr No_results_found)"

text \<open>
  The \<open>except\<close> clauses: \<open>ValueError\<close> and \<open>SystemExit\<close> are caught and printed, any other
  exception leaves the script uncaught (\<open>Inl\<close>).
\<close>

definition main ::
  "(string list \<Rightarrow> string list) \<Rightarrow> network \<Rightarrow> string \<Rightarrow> string option \<Rightarrow> exn + printed" where
  "main iter net mac_arg API_KEY =
     (case main_try iter net mac_arg API_KEY of
        Inr out \<Rightarrow> Inr out
      | Inl (ValueError e) \<Rightarrow> Inr (Value_error_message e)
      | Inl (SystemExit e) \<Rightarrow> Inr (Api_exception_message e)
      | Inl (AttributeError a) \<Rightarrow> Inl (AttributeError a)
      | Inl (TypeError a) \<Rightarrow> Inl (TypeError a))"

text \<open>Whether the output was printed by the \<open>except SystemExit\<close> clause.\<close>

definition printed_by_system_exit_handler :: "exn + printed \<Rightarrow> bool" where
  "printed_by_system_exit_handler r =
     (case r of Inr (Api_exception_message _) \<Rightarrow> True | _ \<Rightarrow> False)"

section \<open>The steps of the batch in the words of the specification\<close>

text \<open>
  The specification lists the steps of \<open>lookupAll\<close>: split the input on commas,
  deduplicate through a set, trim whitespace, then validate and query each piece in turn
  while accumulating results. Each step is stated here on its own, without the functions
  of the script.

  Splitting on commas: the pieces contain no comma and give back the input when they are
  joined with commas (\<open>join\<close> is Python's \<open>sep.join\<close>).
\<close>

fun join :: "char \<Rightarrow> string list \<Rightarrow> string" where
  "join sep [] = []"
| "join sep [p] = p"
| "join sep (p # q # ps) = p @ sep # join sep (q # ps)"

definition split_of :: "char \<Rightarrow> string \<Rightarrow> string list \<Rightarrow> bool" where
  "split_of sep s pieces \<longleftrightarrow>
     pieces \<noteq> [] \<and> join sep pieces = s \<and> list_all (\<lambda>p. sep \<notin> set p) pieces"

text \<open>Deduplicating: every piece is listed, and listed once.\<close>

definition deduplication_of :: "string list \<Rightarrow> string list \<Rightarrow> bool" where
  "deduplication_of pieces unique \<longleftrightarrow> distinct unique \<and> set unique = set pieces"

text \<open>
  Trimming: \<open>t\<close> is \<open>p\<close> without a run of whitespace at its start and a run of whitespace
  at its end, and \<open>t\<close> itself neither starts nor ends with whitespace.
\<close>

definition trimmed_of :: "string \<Rightarrow> string \<Rightarrow> bool" where
  "trimmed_of p t \<longleftrightarrow>
     (\<exists>l r. p = l @ t @ r \<and> list_all is_space l \<and> list_all is_space r) \<and>
     (case t of [] \<Rightarrow> True | c # cs \<Rightarrow> \<not> is_space c \<and> \<not> is_space (last t))"

text \<open>
  Validating, in the words of the specification: the length is exactly 12 or 17, and
  every character is in \<open>[0-9A-F:.]\<close>.
\<close>

definition validate_spec :: "string \<Rightarrow> exn + unit" where
  "validate_spec mac =
     (if length mac \<noteq> 12 \<and> length mac \<noteq> 17 then Inl (ValueError (Length_failed mac))
      else if \<not> list_all hex_or_delim mac then Inl (ValueError (Hex_only_failed mac))
      else Inr ())"

text \<open>
  Validating and querying each piece in turn while accumulating results: a left fold over
  the trimmed pieces, whose state is either the results and the requests so far, or the
  error that stopped the batch and the requests sent before it.
\<close>

datatype progress =
    Running "mac_address_io list" "request list"
  | Aborted exn "request list"

definition lookup_step :: "network \<Rightarrow> string option \<Rightarrow> progress \<Rightarrow> string \<Rightarrow> progress" where
  "lookup_step net api_key st mac =
     (case st of
        Aborted e sent \<Rightarrow> Aborted e sent
      | Running acc sent \<Rightarrow>
          (case validate_spec mac of
             Inl e \<Rightarrow> Aborted e sent
           | Inr _ \<Rightarrow>
               (case make_request net mac api_key sent of
                  (Inl e, sent') \<Rightarrow> Aborted e sent'
                | (Inr r, sent') \<Rightarrow> Running (acc @ [r]) sent')))"

definition lookup_each ::
  "network \<Rightarrow> string option \<Rightarrow> string list
     \<Rightarrow> (exn + mac_address_io list) \<times> request list" where
  "lookup_each net apiKey trimmed =
     (if apiKey = None \<or> apiKey = Some [] then (Inl (ValueError Api_key_missing), [])
      else
        (case foldl (lookup_step net apiKey) (Running [] []) trimmed of
           Running acc sent \<Rightarrow> (Inr acc, sent)
         | Aborted e sent \<Rightarrow> (Inl e, sent)))"

text \<open>The class \<open>[0-9A-F]\<close> of the hexadecimal digits alone.\<close>

definition hex_digit :: "char \<Rightarrow> bool" where
  "hex_digit c \<longleftrightarrow>
     (48 \<le> (of_char c :: nat) \<and> (of_char c :: nat) \<le> 57) \<or>
     (65 \<le> (of_char c :: nat) \<and> (of_char c :: nat) \<le> 70)"

section \<open>Properties of validation\<close>

lemma fullmatch_hex_only_iff:
  "fullmatch_hex_only s \<longleftrightarrow> s \<noteq> [] \<and> list_all hex_or_delim s"
proof -
  have "length s \<le> length (takeWhile hex_or_delim s) \<longleftrightarrow> takeWhile hex_or_delim s = s"
    by (metis order_refl takeWhile_eq_take take_all_iff)
  then show ?thesis
    by (auto simp: fullmatch_hex_only_def hex_only_match_ends_def at_dollar_def
        takeWhile_eq_all_conv list_all_iff Suc_le_eq)
qed

lemma validate_mac_iff:
  "validate_mac mac = Inr () \<longleftrightarrow>
     (length mac = 12 \<or> length mac = 17) \<and> list_all hex_or_delim mac"
  by (auto simp: validate_mac_def validate_mac_length_def validate_hex_only_def
      fullmatch_hex_only_iff)

lemma validate_mac_eq_spec: "validate_mac mac = validate_spec mac"
  by (auto simp: validate_mac_def validate_mac_length_def validate_hex_only_def
      validate_spec_def fullmatch_hex_only_iff)

text \<open>
  C1. \<open>validate_mac\<close> succeeds exactly when the length of the string is 12 or 17 and every
  character is in \<open>[0-9A-F:.]\<close>; in every other case it raises \<open>ValueError\<close> (the length
  error when the length is wrong, the hex-only error otherwise).
\<close>

theorem validate_mac_succeeds_iff:
  "(validate_mac mac = Inr () \<longleftrightarrow>
      (length mac = 12 \<or> length mac = 17) \<and> (\<forall>c \<in> set mac. hex_or_delim c)) \<and>
   (validate_mac mac \<noteq> Inr () \<longrightarrow>
      validate_mac mac = Inl (ValueError (Length_failed mac)) \<or>
      validate_mac mac = Inl (ValueError (Hex_only_failed mac)))"
  by (auto simp: validate_mac_def validate_mac_length_def validate_hex_only_def
      fullmatch_hex_only_iff list_all_iff)

theorem validate_mac_succeeds_iff_witness:
  "validate_mac ''AABBCCDDEEFF'' = Inr () \<and>
   validate_mac ''AABBCCDDEEF'' = Inl (ValueError (Length_failed ''AABBCCDDEEF'')) \<and>
   validate_mac ''AABBCCDDEEFG'' = Inl (ValueError (Hex_only_failed ''AABBCCDDEEFG''))"
  using validate_mac_succeeds_iff [of "''AABBCCDDEEFF''"]
    validate_mac_succeeds_iff [of "''AABBCCDDEEF''"]
    validate_mac_succeeds_iff [of "''AABBCCDDEEFG''"]
  by (auto simp: hex_or_delim_def validate_mac_def validate_mac_length_def
      validate_hex_only_def fullmatch_hex_only_iff)

text \<open>
  C10. Length and character class are checked independently and the place of the
  delimiters is never checked: a 12-character string over \<open>[0-9A-F:.]\<close> that contains
  \<open>:\<close> or \<open>.\<close> passes, and so does a 17-character string of hexadecimal digits only.
\<close>

theorem validate_mac_ignores_delimiter_placement:
  "(length mac = 12 \<and> (\<forall>c \<in> set mac. hex_or_delim c) \<and>
      (CHR '':'' \<in> set mac \<or> CHR ''.'' \<in> set mac)) \<or>
   (length mac = 17 \<and> (\<forall>c \<in> set mac. hex_digit c))
   \<Longrightarrow> validate_mac mac = Inr ()"
  by (auto simp: validate_mac_iff list_all_iff hex_digit_def hex_or_delim_def)

theorem validate_mac_ignores_delimiter_placement_witness:
  "validate_mac ''AA:BB.CCDD:E'' = Inr () \<and> validate_mac ''AABBCCDDEEFF00112'' = Inr ()"
  using validate_mac_ignores_delimiter_placement [of "''AA:BB.CCDD:E''"]
    validate_mac_ignores_delimiter_placement [of "''AABBCCDDEEFF00112''"]
  by (simp add: hex_or_delim_def hex_digit_def)

section \<open>Properties of the batch and of the driver\<close>

lemma str_split_not_Nil: "str_split sep s \<noteq> []"
  by (induction s) (auto split: list.splits)

lemma set_iteration_remdups: "set_iteration remdups"
  by (simp add: set_iteration_def)


lemma snd_make_request: "snd (make_request net mac api_key sent) = sent @ [(mac, api_key)]"
  by (simp add: make_request_def Let_def)

lemma loop_sent:
  "\<exists>k \<le> length (takeWhile (\<lambda>p. validate_mac (strip p) = Inr ()) ord).
     snd (get_mac_details_loop net api_key ord acc sent)
       = sent @ map (\<lambda>p. (strip p, api_key)) (take k ord)"
proof (induction ord arbitrary: acc sent)
  case Nil
  then show ?case by simp
next
  case (Cons piece rest)
  show ?case
  proof (cases "validate_mac (strip piece)")
    case (Inl e)
    then show ?thesis by (intro exI [of _ 0]) simp
  next
    case (Inr u)
    obtain res sent' where mr: "make_request net (strip piece) api_key sent = (res, sent')"
      by (cases "make_request net (strip piece) api_key sent")
    then have sent': "sent' = sent @ [(strip piece, api_key)]"
      using snd_make_request [of net "strip piece" api_key sent] by simp
    show ?thesis
    proof (cases res)
      case (Inl e)
      with Inr mr sent' show ?thesis by (intro exI [of _ 1]) simp
    next
      case r: (Inr r)
      from Cons.IH [of "acc @ [r]" sent'] obtain k where
        k: "k \<le> length (takeWhile (\<lambda>p. validate_mac (strip p) = Inr ()) rest)"
        "snd (get_mac_details_loop net api_key rest (acc @ [r]) sent')
           = sent' @ map (\<lambda>p. (strip p, api_key)) (take k rest)"
        by blast
      with Inr mr sent' r show ?thesis by (intro exI [of _ "Suc k"]) simp
    qed
  qed
qed

lemma loop_Inr:
  "fst (get_mac_details_loop net api_key ord acc sent) = Inr rs \<Longrightarrow>
     (\<forall>p \<in> set ord. validate_mac (strip p) = Inr ()) \<and> length rs = length acc + length ord"
proof (induction ord arbitrary: acc sent)
  case Nil
  then show ?case by simp
next
  case (Cons piece rest)
  show ?case
  proof (cases "validate_mac (strip piece)")
    case (Inl e)
    with Cons.prems show ?thesis by simp
  next
    case (Inr u)
    obtain res sent' where mr: "make_request net (strip piece) api_key sent = (res, sent')"
      by (cases "make_request net (strip piece) api_key sent")
    show ?thesis
    proof (cases res)
      case (Inl e)
      with Inr mr Cons.prems show ?thesis by simp
    next
      case r: (Inr r)
      with Inr mr Cons.prems
      have "fst (get_mac_details_loop net api_key rest (acc @ [r]) sent') = Inr rs"
        by simp
      from Cons.IH [OF this] Inr show ?thesis by simp
    qed
  qed
qed

lemma take_takeWhile_all:
  "k \<le> length (takeWhile P xs) \<Longrightarrow> x \<in> set (take k xs) \<Longrightarrow> P x"
  by (induction xs arbitrary: k) (auto simp: take_Cons split: nat.splits if_splits)

lemma set_iteration_single: "set_iteration iter \<Longrightarrow> iter [x] = [x]"
proof -
  assume "set_iteration iter"
  then have d: "distinct (iter [x])" and s: "set (iter [x]) = {x}"
    by (simp_all add: set_iteration_def)
  then show ?thesis
    by (cases "iter [x]") (auto simp: insert_eq_iff dest: subset_singletonD)
qed

lemma foldl_lookup_step_Aborted:
  "foldl (lookup_step net api_key) (Aborted e sent) macs = Aborted e sent"
  by (induction macs) (simp_all add: lookup_step_def)

lemma lookup_step_invalid:
  "validate_mac mac = Inl e \<Longrightarrow> lookup_step net api_key (Running acc sent) mac = Aborted e sent"
  by (simp add: lookup_step_def validate_mac_eq_spec [symmetric])

lemma lookup_step_failed:
  "validate_mac mac = Inr u \<Longrightarrow> make_request net mac api_key sent = (Inl e, sent') \<Longrightarrow>
     lookup_step net api_key (Running acc sent) mac = Aborted e sent'"
  by (simp add: lookup_step_def validate_mac_eq_spec [symmetric])

lemma lookup_step_ok:
  "validate_mac mac = Inr u \<Longrightarrow> make_request net mac api_key sent = (Inr r, sent') \<Longrightarrow>
     lookup_step net api_key (Running acc sent) mac = Running (acc @ [r]) sent'"
  by (simp add: lookup_step_def validate_mac_eq_spec [symmetric])

lemma foldl_lookup_step_loop:
  "(case foldl (lookup_step net api_key) (Running acc sent) (map strip ord) of
      Running a s \<Rightarrow> (Inr a, s)
    | Aborted e s \<Rightarrow> (Inl e, s))
   = get_mac_details_loop net api_key ord acc sent"
proof (induction ord arbitrary: acc sent)
  case Nil
  then show ?case by simp
next
  case (Cons piece rest)
  show ?case
  proof (cases "validate_mac (strip piece)")
    case (Inl e)
    then show ?thesis
      by (simp add: lookup_step_invalid foldl_lookup_step_Aborted)
  next
    case (Inr u)
    obtain res sent' where mr: "make_request net (strip piece) api_key sent = (res, sent')"
      by (cases "make_request net (strip piece) api_key sent")
    show ?thesis
    proof (cases res)
      case (Inl e)
      with Inr mr show ?thesis
        by (simp add: lookup_step_failed foldl_lookup_step_Aborted)
    next
      case r: (Inr r)
      with Inr mr Cons.IH [of "acc @ [r]" sent'] show ?thesis
        by (simp add: lookup_step_ok)
    qed
  qed
qed

text \<open>
  C4. With an absent or empty API key \<open>get_mac_details\<close> raises the API-key
  \<open>ValueError\<close> whatever the list of addresses is, before any address is validated and
  with no request sent; and on the empty input string it raises a \<open>ValueError\<close> with no
  request sent, whatever the key is.
\<close>

theorem missing_api_key_or_empty_input_fails_first:
  "(api_key = None \<or> api_key = Some [] \<longrightarrow>
      get_mac_details iter net mac_addresses api_key = (Inl (ValueError Api_key_missing), [])) \<and>
   (set_iteration iter \<longrightarrow>
      get_mac_details iter net [] api_key =
        (Inl (ValueError (if api_key = None \<or> api_key = Some [] then Api_key_missing
                          else Length_failed [])), []))"
  by (auto simp: get_mac_details_def validate_api_key_exists_def set_iteration_single
      strip_def validate_mac_def validate_mac_length_def)

text \<open>At an absent key, an empty key, and the empty input with a key.\<close>

theorem missing_api_key_or_empty_input_fails_first_witness:
  "get_mac_details remdups acme_api ''AABBCCDDEEFF'' None = (Inl (ValueError Api_key_missing), []) \<and>
   get_mac_details remdups acme_api ''AABBCCDDEEFF'' (Some []) = (Inl (ValueError Api_key_missing), []) \<and>
   get_mac_details remdups acme_api [] (Some ''key'') = (Inl (ValueError (Length_failed [])), [])"
  using missing_api_key_or_empty_input_fails_first [of None remdups acme_api "''AABBCCDDEEFF''"]
    missing_api_key_or_empty_input_fails_first [of "Some []" remdups acme_api "''AABBCCDDEEFF''"]
    missing_api_key_or_empty_input_fails_first [of "Some ''key''" remdups acme_api "''AABBCCDDEEFF''"]
    set_iteration_remdups
  by simp

lemma get_mac_details_sent:
  "\<exists>k \<le> length (takeWhile (\<lambda>p. validate_mac (strip p) = Inr ())
                     (iter (str_split CHR '','' s))).
     snd (get_mac_details iter net s api_key)
       = map (\<lambda>p. (strip p, api_key)) (take k (iter (str_split CHR '','' s)))"
proof (cases "validate_api_key_exists api_key")
  case (Inl e)
  then show ?thesis by (intro exI [of _ 0]) (simp add: get_mac_details_def)
next
  case (Inr u)
  with loop_sent [of "iter (str_split CHR '','' s)" net api_key "[]" "[]"]
  show ?thesis by (simp add: get_mac_details_def)
qed

lemma get_mac_details_Inr:
  assumes "fst (get_mac_details iter net s api_key) = Inr rs"
  shows "(\<forall>p \<in> set (iter (str_split CHR '','' s)). validate_mac (strip p) = Inr ()) \<and>
         length rs = length (iter (str_split CHR '','' s))"
  using assms loop_Inr [of net api_key "iter (str_split CHR '','' s)" "[]" "[]" rs]
  by (simp add: get_mac_details_def split: sum.splits)

text \<open>
  C3. For every input and every iteration order of the set: when some piece fails
  validation, \<open>get_mac_details\<close> raises (it returns no list of results, not even a partial
  one), no request is ever sent for the malformed entry, and the requests that were sent
  are those of entries visited before the first malformed one.
\<close>

theorem first_validation_failure_aborts_batch:
  assumes "set_iteration iter"
    and "p \<in> set (str_split CHR '','' s)"
    and "validate_mac (strip p) \<noteq> Inr ()"
  shows "(\<exists>e. fst (get_mac_details iter net s api_key) = Inl e) \<and>
         strip p \<notin> fst ` set (snd (get_mac_details iter net s api_key)) \<and>
         (\<exists>k \<le> length (takeWhile (\<lambda>q. validate_mac (strip q) = Inr ())
                          (iter (str_split CHR '','' s))).
            snd (get_mac_details iter net s api_key)
              = map (\<lambda>q. (strip q, api_key)) (take k (iter (str_split CHR '','' s))))"
proof -
  let ?ord = "iter (str_split CHR '','' s)"
  let ?ok = "\<lambda>q. validate_mac (strip q) = Inr ()"
  from assms(1,2) have p: "p \<in> set ?ord" by (simp add: set_iteration_def)
  have 1: "\<exists>e. fst (get_mac_details iter net s api_key) = Inl e"
  proof (cases "fst (get_mac_details iter net s api_key)")
    case (Inl e)
    then show ?thesis by simp
  next
    case (Inr rs)
    from get_mac_details_Inr [OF this] p assms(3) show ?thesis by blast
  qed
  from get_mac_details_sent [of iter s net api_key] obtain k where
    k: "k \<le> length (takeWhile ?ok ?ord)"
    "snd (get_mac_details iter net s api_key) = map (\<lambda>q. (strip q, api_key)) (take k ?ord)"
    by blast
  have "\<forall>q \<in> set (take k ?ord). ?ok q"
    using take_takeWhile_all [OF k(1)] by blast
  with assms(3) have 2: "strip p \<notin> fst ` set (snd (get_mac_details iter net s api_key))"
    by (auto simp: k(2))
  from 1 2 k show ?thesis by blast
qed

text \<open>At a batch of one valid and one malformed entry.\<close>

theorem first_validation_failure_aborts_batch_witness:
  "(\<exists>e. fst (get_mac_details remdups acme_api ''AABBCCDDEEFF,ZZ'' (Some ''key'')) = Inl e) \<and>
   ''ZZ'' \<notin> fst ` set (snd (get_mac_details remdups acme_api ''AABBCCDDEEFF,ZZ'' (Some ''key'')))"
proof -
  have p: "''ZZ'' \<in> set (str_split CHR '','' ''AABBCCDDEEFF,ZZ'')" by simp
  have st: "strip ''ZZ'' = ''ZZ''" by code_simp
  have v: "validate_mac (strip ''ZZ'') \<noteq> Inr ()" by code_simp
  from first_validation_failure_aborts_batch [OF set_iteration_remdups p v, of acme_api "Some ''key''"]
  show ?thesis by (simp only: st) blast
qed

lemma count_list_map_filter:
  "count_list (map g xs) y = length (filter (\<lambda>x. g x = y) xs)"
  by (induction xs) simp_all





lemma make_request_Inr:
  "make_request net mac api_key sent = (Inr r, sent') \<Longrightarrow>
     \<exists>body. net (sent @ [(mac, api_key)]) = Response 200 body"
  by (auto simp: make_request_def Let_def split: reply.splits if_splits)

lemma make_request_bad_status:
  "net (sent @ [(mac, api_key)]) = Response st body \<Longrightarrow> st \<noteq> 200 \<Longrightarrow>
     make_request net mac api_key sent
       = (Inl (ValueError (Bad_status mac st)), sent @ [(mac, api_key)])"
  by (simp add: make_request_def Let_def)

lemma make_request_exception:
  "net (sent @ [(mac, api_key)]) = Request_exception err \<Longrightarrow>
     make_request net mac api_key sent = (Inl (SystemExit err), sent @ [(mac, api_key)])"
  by (simp add: make_request_def Let_def)

lemma loop_last_reply:
  assumes "snd (get_mac_details_loop net api_key ord acc sent) = sent'"
    and "sent' \<noteq> sent"
  shows "(net sent' = Response st body \<and> st \<noteq> 200 \<longrightarrow>
            fst (get_mac_details_loop net api_key ord acc sent)
              = Inl (ValueError (Bad_status (fst (last sent')) st))) \<and>
         (net sent' = Request_exception err \<longrightarrow>
            fst (get_mac_details_loop net api_key ord acc sent) = Inl (SystemExit err))"
  using assms
proof (induction ord arbitrary: acc sent)
  case Nil
  then show ?case by simp
next
  case (Cons piece rest)
  show ?case
  proof (cases "validate_mac (strip piece)")
    case (Inl e)
    with Cons.prems show ?thesis by simp
  next
    case (Inr u)
    let ?sent1 = "sent @ [(strip piece, api_key)]"
    obtain res where mr: "make_request net (strip piece) api_key sent = (res, ?sent1)"
      using snd_make_request [of net "strip piece" api_key sent]
      by (cases "make_request net (strip piece) api_key sent") simp
    show ?thesis
    proof (cases res)
      case (Inl e)
      with Inr mr Cons.prems have s: "sent' = ?sent1" by simp
      show ?thesis
        using make_request_bad_status [of net sent "strip piece" api_key st body]
          make_request_exception [of net sent "strip piece" api_key err]
        by (auto simp: s Inr Let_def)
    next
      case r: (Inr r)
      from make_request_Inr [of net "strip piece" api_key sent r ?sent1] mr r
      obtain b where ok: "net ?sent1 = Response 200 b" by auto
      from Inr mr r Cons.prems
      have run: "snd (get_mac_details_loop net api_key rest (acc @ [r]) ?sent1) = sent'"
        by simp
      show ?thesis
      proof (cases "sent' = ?sent1")
        case True
        with ok show ?thesis by auto
      next
        case False
        from Cons.IH [OF run False] Inr mr r show ?thesis by simp
      qed
    qed
  qed
qed

lemma loop_earlier_replies:
  assumes "snd (get_mac_details_loop net api_key ord acc sent) = sent'"
    and "length sent \<le> i" and "Suc i < length sent'"
  shows "\<exists>body. net (take (Suc i) sent') = Response 200 body"
  using assms
proof (induction ord arbitrary: acc sent)
  case Nil
  then show ?case by simp
next
  case (Cons piece rest)
  show ?case
  proof (cases "validate_mac (strip piece)")
    case (Inl e)
    with Cons.prems show ?thesis by simp
  next
    case (Inr u)
    let ?sent1 = "sent @ [(strip piece, api_key)]"
    obtain res where mr: "make_request net (strip piece) api_key sent = (res, ?sent1)"
      using snd_make_request [of net "strip piece" api_key sent]
      by (cases "make_request net (strip piece) api_key sent") simp
    show ?thesis
    proof (cases res)
      case (Inl e)
      with Inr mr Cons.prems have "sent' = ?sent1" by simp
      with Cons.prems show ?thesis by simp
    next
      case r: (Inr r)
      from make_request_Inr [of net "strip piece" api_key sent r ?sent1] mr r
      obtain b where ok: "net ?sent1 = Response 200 b" by auto
      from Inr mr r Cons.prems
      have run: "snd (get_mac_details_loop net api_key rest (acc @ [r]) ?sent1) = sent'"
        by simp
      from loop_sent [of rest net api_key "acc @ [r]" ?sent1] run
      obtain ys where ys: "sent' = ?sent1 @ ys" by auto
      show ?thesis
      proof (cases "i = length sent")
        case True
        then have "take (Suc i) sent' = ?sent1" by (simp add: ys)
        with ok show ?thesis by simp
      next
        case False
        with Cons.prems(2) have "length ?sent1 \<le> i" by simp
        from Cons.IH [OF run this Cons.prems(3)] show ?thesis .
      qed
    qed
  qed
qed

lemma main_of_error:
  "fst (get_mac_details iter net s api_key) = Inl e \<Longrightarrow>
     main iter net s api_key =
       (case e of ValueError v \<Rightarrow> Inr (Value_error_message v)
        | SystemExit m \<Rightarrow> Inr (Api_exception_message m)
        | AttributeError a \<Rightarrow> Inl (AttributeError a)
        | TypeError a \<Rightarrow> Inl (TypeError a))"
  by (simp add: main_def main_try_def split: exn.splits)

text \<open>
  C2 (amended). A request answered with a status other than 200 is the last of the run;
  its \<open>ValueError\<close>, which carries the address and the status code, is printed by the
  \<open>except ValueError\<close> clause that also prints validation errors, not by the
  \<open>except SystemExit\<close> clause, which is the one a network exception reaches. No table is
  printed in either case.
\<close>

theorem non_200_reported_as_value_error:
  assumes "i < length (snd (get_mac_details iter net s api_key))"
  shows "(net (take (Suc i) (snd (get_mac_details iter net s api_key))) = Response st body
            \<and> st \<noteq> 200 \<longrightarrow>
          main iter net s api_key =
            Inr (Value_error_message
                   (Bad_status (fst (snd (get_mac_details iter net s api_key) ! i)) st)) \<and>
          \<not> printed_by_system_exit_handler (main iter net s api_key)) \<and>
         (net (take (Suc i) (snd (get_mac_details iter net s api_key))) = Request_exception err
            \<longrightarrow>
          main iter net s api_key = Inr (Api_exception_message err) \<and>
          printed_by_system_exit_handler (main iter net s api_key))"
proof -
  let ?sent = "snd (get_mac_details iter net s api_key)"
  let ?ord = "iter (str_split CHR '','' s)"
  from assms have key: "validate_api_key_exists api_key = Inr ()"
    by (cases "validate_api_key_exists api_key") (auto simp: get_mac_details_def)
  then have run: "get_mac_details iter net s api_key
                    = get_mac_details_loop net api_key ?ord [] []"
    by (simp add: get_mac_details_def)
  have last: "Suc i = length ?sent"
    if "\<not> (\<exists>b. net (take (Suc i) ?sent) = Response 200 b)"
  proof (rule ccontr)
    assume "Suc i \<noteq> length ?sent"
    with assms have lt: "Suc i < length ?sent" by simp
    have "snd (get_mac_details_loop net api_key ?ord [] []) = ?sent"
      by (simp only: run)
    from loop_earlier_replies [OF this _ lt] that show False by simp
  qed
  from assms have ne: "?sent \<noteq> []" by auto
  have loop: "snd (get_mac_details_loop net api_key ?ord [] []) = ?sent"
    by (simp only: run)
  have a: "main iter net s api_key =
            Inr (Value_error_message (Bad_status (fst (?sent ! i)) st)) \<and>
          \<not> printed_by_system_exit_handler (main iter net s api_key)"
    if h: "net (take (Suc i) ?sent) = Response st body" "st \<noteq> 200"
  proof -
    from h have "\<not> (\<exists>b. net (take (Suc i) ?sent) = Response 200 b)" by simp
    from last [OF this] have l: "length ?sent = Suc i" by (rule sym)
    then have t: "take (Suc i) ?sent = ?sent" by simp
    from ne have nth: "last ?sent = ?sent ! i"
      by (simp add: last_conv_nth l)
    from loop_last_reply [OF loop ne, of st body] h
    have "fst (get_mac_details_loop net api_key ?ord [] [])
            = Inl (ValueError (Bad_status (fst (last ?sent)) st))"
      by (simp only: t) simp
    then have "fst (get_mac_details iter net s api_key)
            = Inl (ValueError (Bad_status (fst (last ?sent)) st))"
      by (simp only: run)
    then have "fst (get_mac_details iter net s api_key)
            = Inl (ValueError (Bad_status (fst (?sent ! i)) st))"
      by (simp only: nth)
    from main_of_error [OF this] show ?thesis
      by (simp add: printed_by_system_exit_handler_def)
  qed
  have b: "main iter net s api_key = Inr (Api_exception_message err) \<and>
          printed_by_system_exit_handler (main iter net s api_key)"
    if h: "net (take (Suc i) ?sent) = Request_exception err"
  proof -
    from h have "\<not> (\<exists>b. net (take (Suc i) ?sent) = Response 200 b)" by simp
    from last [OF this] have l: "length ?sent = Suc i" by (rule sym)
    then have t: "take (Suc i) ?sent = ?sent" by simp
    from loop_last_reply [OF loop ne, of _ _ err] h
    have "fst (get_mac_details_loop net api_key ?ord [] []) = Inl (SystemExit err)"
      by (simp only: t)
    then have "fst (get_mac_details iter net s api_key) = Inl (SystemExit err)"
      by (simp only: run)
    from main_of_error [OF this] show ?thesis
      by (simp add: printed_by_system_exit_handler_def)
  qed
  from a b show ?thesis by blast
qed

text \<open>At a 404 reply and at a network exception, for one address.\<close>

theorem non_200_reported_as_value_error_witness:
  "main remdups (replying (Response 404 (Inl []))) ''AA:BB:CC:DD:EE:FF'' (Some ''key'')
     = Inr (Value_error_message (Bad_status ''AA:BB:CC:DD:EE:FF'' 404)) \<and>
   main remdups (replying (Request_exception ''timed out'')) ''AA:BB:CC:DD:EE:FF'' (Some ''key'')
     = Inr (Api_exception_message ''timed out'')"
proof -
  let ?bad = "replying (Response 404 (Inl []))"
  let ?exc = "replying (Request_exception ''timed out'')"
  have 1: "snd (get_mac_details remdups ?bad ''AA:BB:CC:DD:EE:FF'' (Some ''key''))
             = [(''AA:BB:CC:DD:EE:FF'', Some ''key'')]"
    by code_simp
  have 2: "snd (get_mac_details remdups ?exc ''AA:BB:CC:DD:EE:FF'' (Some ''key''))
             = [(''AA:BB:CC:DD:EE:FF'', Some ''key'')]"
    by code_simp
  from non_200_reported_as_value_error [of 0 remdups ?bad "''AA:BB:CC:DD:EE:FF''" "Some ''key''"
      404 "Inl []" "[]"]
    non_200_reported_as_value_error [of 0 remdups ?exc "''AA:BB:CC:DD:EE:FF''" "Some ''key''"
      0 "Inl []" "''timed out''"]
  show ?thesis by (simp add: 1 2 replying_def)
qed

text \<open>
  C2 as stated fails: the output for a 404 reply is not printed by the \<open>except SystemExit\<close>
  clause, while the output for a network exception is.
\<close>

theorem non_200_same_path_counterexample:
  "\<not> printed_by_system_exit_handler
       (main remdups (replying (Response 404 (Inl []))) ''AA:BB:CC:DD:EE:FF'' (Some ''key'')) \<and>
   printed_by_system_exit_handler
     (main remdups (replying (Request_exception ''timed out'')) ''AA:BB:CC:DD:EE:FF''
        (Some ''key''))"
  by code_simp

section \<open>The steps of the batch, duplicates, and the result object\<close>

lemma join_str_split: "join sep (str_split sep s) = s"
proof (induction s)
  case Nil
  then show ?case by simp
next
  case (Cons c cs)
  show ?case
  proof (cases "str_split sep cs")
    case Nil
    then show ?thesis using str_split_not_Nil [of sep cs] by simp
  next
    case (Cons p ps)
    with Cons.IH show ?thesis by (cases ps) auto
  qed
qed

lemma str_split_no_sep_inside: "p \<in> set (str_split sep s) \<Longrightarrow> sep \<notin> set p"
  by (induction s arbitrary: p) (auto split: if_splits list.splits)

lemma split_of_str_split: "split_of sep s (str_split sep s)"
  by (simp add: split_of_def str_split_not_Nil join_str_split list_all_iff
      str_split_no_sep_inside)

lemma strip_decompose:
  "p = takeWhile is_space p @ strip p @ rev (takeWhile is_space (rev (dropWhile is_space p)))"
proof -
  let ?q = "dropWhile is_space p"
  have "strip p @ rev (takeWhile is_space (rev ?q))
          = rev (takeWhile is_space (rev ?q) @ dropWhile is_space (rev ?q))"
    by (simp only: strip_def rev_append)
  also have "\<dots> = ?q"
    by (simp only: takeWhile_dropWhile_id rev_rev_ident)
  finally have "takeWhile is_space p @ strip p @ rev (takeWhile is_space (rev ?q))
                  = takeWhile is_space p @ ?q"
    by (rule arg_cong)
  then show ?thesis by (simp only: takeWhile_dropWhile_id)
qed

lemma last_dropWhile: "dropWhile P xs \<noteq> [] \<Longrightarrow> last (dropWhile P xs) = last xs"
  by (metis last_appendR takeWhile_dropWhile_id)

lemma dropWhile_rev_not_Nil: "dropWhile P (rev xs) \<noteq> [] \<Longrightarrow> xs \<noteq> []"
  by auto

lemma strip_ends:
  "strip p = c # cs \<Longrightarrow> \<not> is_space c \<and> \<not> is_space (last (strip p))"
proof -
  assume a: "strip p = c # cs"
  let ?q = "dropWhile is_space p"
  let ?d = "dropWhile is_space (rev ?q)"
  from a have d: "?d \<noteq> []" by (auto simp: strip_def)
  then have q: "?q \<noteq> []" by (rule dropWhile_rev_not_Nil)
  have l: "last (strip p) = hd ?d" using d by (simp add: strip_def last_rev)
  have "\<not> is_space (hd ?d)" using d by (rule hd_dropWhile)
  with l have 1: "\<not> is_space (last (strip p))" by simp
  from last_dropWhile [OF d] have "last (rev ?q) = last ?d" by (rule sym)
  then have "hd ?q = last ?d" using q by (simp add: last_rev)
  moreover have "hd (strip p) = last ?d" using d by (simp add: strip_def hd_rev)
  moreover have "\<not> is_space (hd ?q)" using q by (rule hd_dropWhile)
  ultimately have "\<not> is_space (hd (strip p))" by simp
  with a 1 show ?thesis by simp
qed

lemma trimmed_of_strip: "trimmed_of p (strip p)"
proof -
  have "\<exists>l r. p = l @ strip p @ r \<and> list_all is_space l \<and> list_all is_space r"
    using strip_decompose [of p]
    by (intro exI [of _ "takeWhile is_space p"]
        exI [of _ "rev (takeWhile is_space (rev (dropWhile is_space p)))"])
      (auto simp: list_all_iff dest: set_takeWhileD)
  then show ?thesis
    using strip_ends [of p] by (auto simp: trimmed_of_def split: list.splits)
qed


lemma sep_split_eq:
  "sep \<notin> set p \<Longrightarrow> sep \<notin> set q \<Longrightarrow> p @ sep # x = q @ sep # y \<Longrightarrow> p = q \<and> x = y"
proof (induction p arbitrary: q)
  case Nil
  then show ?case by (cases q) auto
next
  case (Cons a p)
  then show ?case by (cases q) auto
qed

lemma split_of_unique:
  "split_of sep s ps \<Longrightarrow> split_of sep s qs \<Longrightarrow> ps = qs"
proof (induction sep ps arbitrary: s qs rule: join.induct)
  case (1 sep)
  then show ?case by (simp add: split_of_def)
next
  case (2 sep p)
  from "2.prems" obtain q qs' where qs: "qs = q # qs'"
    by (cases qs) (auto simp: split_of_def)
  show ?case
  proof (cases qs')
    case Nil
    with "2.prems" qs show ?thesis by (simp add: split_of_def)
  next
    case (Cons q' qs'')
    with "2.prems" qs have "p = q @ sep # join sep (q' # qs'')" "sep \<notin> set p"
      by (auto simp: split_of_def)
    then show ?thesis by auto
  qed
next
  case (3 sep p p' ps)
  from "3.prems" obtain q qs' where qs: "qs = q # qs'"
    by (cases qs) (auto simp: split_of_def)
  show ?case
  proof (cases qs')
    case Nil
    with "3.prems" qs have "q = p @ sep # join sep (p' # ps)" "sep \<notin> set q"
      by (auto simp: split_of_def)
    then show ?thesis by auto
  next
    case (Cons q' qs'')
    from "3.prems" qs Cons
    have e: "p @ sep # join sep (p' # ps) = q @ sep # join sep (q' # qs'')"
      and np: "sep \<notin> set p" and nq: "sep \<notin> set q"
      and rp: "list_all (\<lambda>p. sep \<notin> set p) (p' # ps)"
      and rq: "list_all (\<lambda>p. sep \<notin> set p) (q' # qs'')"
      by (auto simp: split_of_def)
    from sep_split_eq [OF np nq e]
    have pq: "p = q" and j: "join sep (p' # ps) = join sep (q' # qs'')" by simp_all
    have "split_of sep (join sep (p' # ps)) (p' # ps)"
      using rp by (simp add: split_of_def)
    moreover have "split_of sep (join sep (p' # ps)) (q' # qs'')"
      using rq j by (simp add: split_of_def)
    ultimately have "p' # ps = q' # qs''" by (rule "3.IH")
    with pq qs Cons show ?thesis by simp
  qed
qed

lemma split_of_iff: "split_of sep s pieces \<longleftrightarrow> pieces = str_split sep s"
  using split_of_unique [OF split_of_str_split] split_of_str_split by metis

lemma trimmed_of_unique:
  assumes "trimmed_of p t"
  shows "t = strip p"
proof -
  from assms obtain l r where p: "p = l @ t @ r"
    and l: "\<forall>c \<in> set l. is_space c" and r: "\<forall>c \<in> set r. is_space c"
    by (auto simp: trimmed_of_def list_all_iff)
  show ?thesis
  proof (cases t)
    case Nil
    with p l r have "\<forall>c \<in> set p. is_space c" by auto
    then have d0: "dropWhile is_space p = []" by simp
    show ?thesis unfolding Nil strip_def d0 by simp
  next
    case (Cons c cs)
    with assms have c: "\<not> is_space c" and e: "\<not> is_space (last t)"
      by (simp_all add: trimmed_of_def)
    from l have "dropWhile is_space p = dropWhile is_space (t @ r)"
      by (simp add: p)
    also have "\<dots> = t @ r" using c Cons by simp
    finally have d: "dropWhile is_space p = t @ r" .
    from Cons obtain ys where t: "rev t = last t # ys"
      by (metis list.distinct(1) rev.simps(2) rev_rev_ident snoc_eq_iff_butlast append_butlast_last_id rev_append rev_singleton_conv append_Cons append_Nil)
    have "dropWhile is_space (rev r @ rev t) = dropWhile is_space (rev t)"
      using r by (intro dropWhile_append2) simp
    then have "dropWhile is_space (rev (t @ r)) = dropWhile is_space (rev t)"
      by (simp only: rev_append)
    also have "\<dots> = rev t"
    proof -
      have "dropWhile is_space (last t # ys) = last t # ys" using e by simp
      then show ?thesis by (simp only: t)
    qed
    finally show ?thesis by (simp add: strip_def d)
  qed
qed

lemma trimmed_of_iff: "trimmed_of p t \<longleftrightarrow> t = strip p"
  using trimmed_of_unique trimmed_of_strip by blast

lemma list_all2_trimmed_of: "list_all2 trimmed_of ps ts \<longleftrightarrow> ts = map strip ps"
  by (induction ps arbitrary: ts) (auto simp: list_all2_Cons1 trimmed_of_iff)

lemma get_mac_details_lookup_each:
  "get_mac_details iter net s api_key
     = lookup_each net api_key (map strip (iter (str_split CHR '','' s)))"
  by (simp add: get_mac_details_def lookup_each_def validate_api_key_exists_def
      foldl_lookup_step_loop)

text \<open>
  C6. The batch is processed in the listed steps, in the listed order. Whatever list of
  pieces is the split of the input on commas, the set visits a deduplication of these
  untrimmed pieces, and whatever list holds the trimmed form of each visited piece,
  \<open>get_mac_details\<close> returns what validating and querying these trimmed pieces one after
  the other returns, with the same requests sent. The split of an input and the trimmed
  form of a piece exist and are unique (\<open>split_of_iff\<close>, \<open>trimmed_of_iff\<close>).
\<close>

theorem lookup_steps_in_order:
  assumes "set_iteration iter"
    and "split_of CHR '','' s pieces"
    and "list_all2 trimmed_of (iter pieces) trimmed"
  shows "deduplication_of pieces (iter pieces) \<and>
         get_mac_details iter net s api_key = lookup_each net api_key trimmed"
proof -
  from assms(2) have "pieces = str_split CHR '','' s" by (simp only: split_of_iff)
  moreover from assms(3) have "trimmed = map strip (iter pieces)"
    by (simp only: list_all2_trimmed_of)
  moreover from assms(1) have "deduplication_of pieces (iter pieces)"
    by (simp add: deduplication_of_def set_iteration_def)
  ultimately show ?thesis by (simp add: get_mac_details_lookup_each)
qed

text \<open>
  At three pieces of which two are identical and the third differs from them by a
  leading space and by its delimiters: two pieces are visited, trimmed and queried.
\<close>

theorem lookup_steps_in_order_witness:
  "get_mac_details remdups acme_api '' AA:BB:CC:DD:EE:FF,AABBCCDDEEFF,AABBCCDDEEFF'' (Some ''key'')
     = lookup_each acme_api (Some ''key'') [''AA:BB:CC:DD:EE:FF'', ''AABBCCDDEEFF''] \<and>
   snd (get_mac_details remdups acme_api '' AA:BB:CC:DD:EE:FF,AABBCCDDEEFF,AABBCCDDEEFF''
          (Some ''key''))
     = [(''AA:BB:CC:DD:EE:FF'', Some ''key''), (''AABBCCDDEEFF'', Some ''key'')]"
proof -
  let ?s = "'' AA:BB:CC:DD:EE:FF,AABBCCDDEEFF,AABBCCDDEEFF''"
  let ?pieces = "['' AA:BB:CC:DD:EE:FF'', ''AABBCCDDEEFF'', ''AABBCCDDEEFF'']"
  have sp: "split_of CHR '','' ?s ?pieces"
    by (simp add: split_of_def)
  have it: "remdups ?pieces = ['' AA:BB:CC:DD:EE:FF'', ''AABBCCDDEEFF'']"
    by simp
  have t1: "trimmed_of '' AA:BB:CC:DD:EE:FF'' ''AA:BB:CC:DD:EE:FF''"
    unfolding trimmed_of_def
    by (intro conjI exI [of _ "[CHR '' '']"] exI [of _ "[]"]) (simp_all add: is_space_def)
  have t2: "trimmed_of ''AABBCCDDEEFF'' ''AABBCCDDEEFF''"
    unfolding trimmed_of_def
    by (intro conjI exI [of _ "[]"]) (simp_all add: is_space_def)
  have tr: "list_all2 trimmed_of (remdups ?pieces) [''AA:BB:CC:DD:EE:FF'', ''AABBCCDDEEFF'']"
    using t1 t2 by (simp only: it list_all2_Cons list_all2_Nil simp_thms)
  have run: "snd (lookup_each acme_api (Some ''key'') [''AA:BB:CC:DD:EE:FF'', ''AABBCCDDEEFF''])
               = [(''AA:BB:CC:DD:EE:FF'', Some ''key''), (''AABBCCDDEEFF'', Some ''key'')]"
    by code_simp
  from lookup_steps_in_order [OF set_iteration_remdups sp tr, of acme_api "Some ''key''"] run
  show ?thesis by simp
qed

lemma distinct_count_list_le_1: "distinct xs \<Longrightarrow> count_list xs x \<le> 1"
  by (induction xs) auto

lemma count_list_filter_eq: "length (filter (\<lambda>p. p = e) xs) = count_list xs e"
  by (induction xs) auto

text \<open>
  C5. When the same entry string occurs more than once in the input, the requests sent
  are one for each entry of a list of visited entries in which no entry occurs twice, so
  at most one query is issued for that entry; and when no other entry of the input
  differs from it only by surrounding whitespace, at most one request carries its
  address.
\<close>

theorem duplicate_entry_queried_once:
  assumes "set_iteration iter"
    and "1 < count_list (str_split CHR '','' s) e"
  shows "\<exists>visited. distinct visited \<and> set visited \<subseteq> set (str_split CHR '','' s) \<and>
           snd (get_mac_details iter net s api_key) = map (\<lambda>p. (strip p, api_key)) visited \<and>
           count_list visited e \<le> 1 \<and>
           ((\<forall>p \<in> set (str_split CHR '','' s). strip p = strip e \<longrightarrow> p = e) \<longrightarrow>
              count_list (map fst (snd (get_mac_details iter net s api_key))) (strip e) \<le> 1)"
proof -
  let ?pieces = "str_split CHR '','' s"
  let ?ord = "iter ?pieces"
  from assms(1) have d: "distinct ?ord" and st: "set ?ord = set ?pieces"
    by (simp_all add: set_iteration_def)
  from get_mac_details_sent [of iter s net api_key] obtain k where
    k: "snd (get_mac_details iter net s api_key) = map (\<lambda>q. (strip q, api_key)) (take k ?ord)"
    by blast
  let ?visited = "take k ?ord"
  have dv: "distinct ?visited" using d by simp
  have sv: "set ?visited \<subseteq> set ?pieces" using st by (metis set_take_subset)
  have c: "count_list ?visited e \<le> 1" using dv by (rule distinct_count_list_le_1)
  have m: "count_list (map fst (snd (get_mac_details iter net s api_key))) (strip e) \<le> 1"
    if h: "\<forall>p \<in> set ?pieces. strip p = strip e \<longrightarrow> p = e"
  proof -
    have "count_list (map fst (snd (get_mac_details iter net s api_key))) (strip e)
            = length (filter (\<lambda>p. strip p = strip e) ?visited)"
      by (simp add: k count_list_map_filter o_def)
    also have "\<dots> = length (filter (\<lambda>p. p = e) ?visited)"
      using h sv by (intro arg_cong [where f = length] filter_cong) auto
    also have "\<dots> = count_list ?visited e"
      by (rule count_list_filter_eq)
    finally show ?thesis using c by simp
  qed
  from dv sv k c m show ?thesis by blast
qed

text \<open>At the specification's example, the same entry twice.\<close>

theorem duplicate_entry_queried_once_witness:
  "count_list (map fst (snd (get_mac_details remdups acme_api
       ''AA:BB:CC:DD:EE:FF,AA:BB:CC:DD:EE:FF'' (Some ''key'')))) ''AA:BB:CC:DD:EE:FF'' \<le> 1"
proof -
  let ?s = "''AA:BB:CC:DD:EE:FF,AA:BB:CC:DD:EE:FF''"
  let ?e = "''AA:BB:CC:DD:EE:FF''"
  have sp: "str_split CHR '','' ?s = [?e, ?e]" by simp
  have st: "strip ?e = ?e" by code_simp
  have c: "1 < count_list (str_split CHR '','' ?s) ?e" by (simp add: sp)
  have h: "\<forall>p \<in> set (str_split CHR '','' ?s). strip p = strip ?e \<longrightarrow> p = ?e"
    by (simp add: sp)
  from duplicate_entry_queried_once [OF set_iteration_remdups c, of acme_api "Some ''key''"] h
  show ?thesis by (auto simp only: st)
qed

lemma set_items_plain:
  "list_all (\<lambda>(k, v). \<not> descriptor_name (str_lower k)) items \<Longrightarrow>
     \<exists>r. set_items self items = Inr r \<and>
         fst ` set r = fst ` set self \<union> str_lower ` fst ` set items"
proof (induction items arbitrary: self)
  case Nil
  then show ?case by simp
next
  case (Cons kv items)
  obtain k v where kv: "kv = (k, v)" by (cases kv)
  from Cons.prems kv have nd: "\<not> descriptor_name (str_lower k)"
    and rest: "list_all (\<lambda>(k, v). \<not> descriptor_name (str_lower k)) items"
    by simp_all
  from nd have sa: "setattr self (str_lower k) v = Inr (AList.update (str_lower k) v self)"
    by (simp add: setattr_def descriptor_name_def)
  from Cons.IH [OF rest, of "AList.update (str_lower k) v self"] sa kv
  show ?case by (auto simp: dom_update)
qed

lemma str_lower_companyName: "str_lower ''companyName'' = ''companyname''"
  by code_simp

lemma acme_init:
  "MacAddressIO_init mac (JObj [(''companyName'', JStr ''Acme'')])
     = Inr [(''mac'', JStr mac), (''companyname'', JStr ''Acme'')]"
  by (simp add: MacAddressIO_init_def setattr_def str_lower_companyName)

lemma str_split_no_sep: "sep \<notin> set s \<Longrightarrow> str_split sep s = [s]"
  by (induction s) auto

text \<open>
  C7 (amended). When the only entry of the input is an address that the API answers with
  HTTP 200 and the body \<open>{"vendorDetails": {"companyName": "Acme"}}\<close>, \<open>get_mac_details\<close>
  returns exactly one result; its \<open>mac\<close> attribute is the queried address and its
  \<open>companyname\<close> attribute is \<open>"Acme"\<close>. For every dict none of whose keys lower-cases to
  \<open>__dict__\<close>, \<open>__class__\<close> or \<open>__weakref__\<close>, the constructor returns an object that has
  the attribute \<open>mac\<close> and whose other attribute names are the lower-cased keys.
\<close>

theorem acme_lookup_result:
  assumes "set_iteration iter"
    and "CHR '','' \<notin> set s"
    and "validate_mac (strip s) = Inr ()"
    and "api_key \<noteq> None" and "api_key \<noteq> Some []"
    and "net [(strip s, api_key)] =
           Response 200 (Inr (JObj [(''vendorDetails'', JObj [(''companyName'', JStr ''Acme'')])]))"
  shows "(\<exists>r. get_mac_details iter net s api_key = (Inr [r], [(strip s, api_key)]) \<and>
              getattr r ''mac'' = Inr (JStr (strip s)) \<and>
              getattr r ''companyname'' = Inr (JStr ''Acme'')) \<and>
         (\<forall>mac items. list_all (\<lambda>(k, v). \<not> descriptor_name (str_lower k)) items \<longrightarrow>
            (\<exists>r. MacAddressIO_init mac (JObj items) = Inr r \<and>
                 ''mac'' \<in> fst ` set r \<and>
                 fst ` set r = insert ''mac'' (str_lower ` fst ` set items)))"
proof -
  from assms(1,2) have ord: "iter (str_split CHR '','' s) = [s]"
    by (simp add: str_split_no_sep set_iteration_single)
  have mr: "make_request net (strip s) api_key []
              = (Inr [(''mac'', JStr (strip s)), (''companyname'', JStr ''Acme'')],
                 [(strip s, api_key)])"
    using assms(6) by (simp add: make_request_def dict_get_def acme_init)
  have "get_mac_details iter net s api_key
          = (Inr [[(''mac'', JStr (strip s)), (''companyname'', JStr ''Acme'')]],
             [(strip s, api_key)])"
    using assms(3,4,5)
    by (simp add: get_mac_details_def validate_api_key_exists_def ord mr Let_def)
  then have 1: "\<exists>r. get_mac_details iter net s api_key = (Inr [r], [(strip s, api_key)]) \<and>
              getattr r ''mac'' = Inr (JStr (strip s)) \<and>
              getattr r ''companyname'' = Inr (JStr ''Acme'')"
    by (simp add: getattr_def)
  have 2: "\<exists>r. MacAddressIO_init mac (JObj items) = Inr r \<and>
                 ''mac'' \<in> fst ` set r \<and>
                 fst ` set r = insert ''mac'' (str_lower ` fst ` set items)"
    if "list_all (\<lambda>(k, v). \<not> descriptor_name (str_lower k)) items" for mac items
    using set_items_plain [OF that, of "[(''mac'', JStr mac)]"]
    by (auto simp: MacAddressIO_init_def setattr_def)
  from 1 2 show ?thesis by blast
qed

text \<open>At the address and the vendor details of the specification's example.\<close>

theorem acme_lookup_result_witness:
  "(\<exists>r. get_mac_details remdups acme_api ''AA:BB:CC:DD:EE:FF'' (Some ''key'')
          = (Inr [r], [(''AA:BB:CC:DD:EE:FF'', Some ''key'')]) \<and>
       getattr r ''mac'' = Inr (JStr ''AA:BB:CC:DD:EE:FF'') \<and>
       getattr r ''companyname'' = Inr (JStr ''Acme'')) \<and>
   (\<exists>r. MacAddressIO_init ''AA:BB:CC:DD:EE:FF'' (JObj [(''companyName'', JStr ''Acme'')]) = Inr r \<and>
       fst ` set r = {''mac'', ''companyname''})"
proof -
  have st: "strip ''AA:BB:CC:DD:EE:FF'' = ''AA:BB:CC:DD:EE:FF''" by code_simp
  have v: "validate_mac (strip ''AA:BB:CC:DD:EE:FF'') = Inr ()" by code_simp
  have c: "CHR '','' \<notin> set ''AA:BB:CC:DD:EE:FF''" by simp
  have n: "acme_api [(strip ''AA:BB:CC:DD:EE:FF'', Some ''key'')] =
             Response 200 (Inr (JObj [(''vendorDetails'', JObj [(''companyName'', JStr ''Acme'')])]))"
    by (simp add: acme_api_def replying_def)
  have p: "list_all (\<lambda>(k, v). \<not> descriptor_name (str_lower k)) [(''companyName'', JStr ''Acme'')]"
    by (simp add: str_lower_companyName descriptor_name_def)
  note t = acme_lookup_result [of remdups "''AA:BB:CC:DD:EE:FF''" "Some ''key''" acme_api,
      OF set_iteration_remdups c v _ _ n]
  from t have 1: "\<exists>r. get_mac_details remdups acme_api ''AA:BB:CC:DD:EE:FF'' (Some ''key'')
          = (Inr [r], [(''AA:BB:CC:DD:EE:FF'', Some ''key'')]) \<and>
       getattr r ''mac'' = Inr (JStr ''AA:BB:CC:DD:EE:FF'') \<and>
       getattr r ''companyname'' = Inr (JStr ''Acme'')"
    by (simp add: st)
  from t p have "\<exists>r. MacAddressIO_init ''AA:BB:CC:DD:EE:FF''
                     (JObj [(''companyName'', JStr ''Acme'')]) = Inr r \<and>
       ''mac'' \<in> fst ` set r \<and>
       fst ` set r = insert ''mac'' (str_lower ` fst ` set [(''companyName'', JStr ''Acme'')])"
    by blast
  then have 2: "\<exists>r. MacAddressIO_init ''AA:BB:CC:DD:EE:FF''
                     (JObj [(''companyName'', JStr ''Acme'')]) = Inr r \<and>
       fst ` set r = {''mac'', ''companyname''}"
    by (auto simp: str_lower_companyName)
  from 1 2 show ?thesis by (rule conjI)
qed

text \<open>
  C7 as stated fails: for the vendor details \<open>{"__dict__": {}}\<close> the constructor returns
  an object without the attribute \<open>mac\<close>, and so does the batch.
\<close>

theorem mac_attribute_erased_counterexample:
  "MacAddressIO_init ''AA:BB:CC:DD:EE:FF'' (JObj [(''__dict__'', JObj [])]) = Inr [] \<and>
   getattr [] ''mac'' = Inl (AttributeError ''mac'') \<and>
   fst (get_mac_details remdups
          (replying (Response 200 (Inr (JObj [(''vendorDetails'', JObj [(''__dict__'', JObj [])])]))))
          ''AA:BB:CC:DD:EE:FF'' (Some ''key''))
     = Inr [[]]"
  by code_simp

text \<open>
  C9. A 200 reply whose JSON object has no \<open>vendorDetails\<close> key makes \<open>make_request\<close>
  raise \<open>AttributeError\<close> from the constructor (\<open>None\<close> has no \<open>items\<close>); the constructor
  returns only when its argument is a dict, and raises that \<open>AttributeError\<close> on every
  other value; and an \<open>AttributeError\<close> of the batch is caught by neither \<open>except\<close>
  clause of the script.
\<close>

theorem missing_vendorDetails_attribute_error:
  "(net (sent @ [(mac, api_key)]) = Response 200 (Inr (JObj body)) \<and>
      map_of body ''vendorDetails'' = None \<longrightarrow>
      fst (make_request net mac api_key sent) = Inl (AttributeError ''items'')) \<and>
   ((\<exists>r. MacAddressIO_init mac data = Inr r) \<longrightarrow> (\<exists>items. data = JObj items)) \<and>
   ((\<forall>items. data \<noteq> JObj items) \<longrightarrow> MacAddressIO_init mac data = Inl (AttributeError ''items'')) \<and>
   (fst (get_mac_details iter net s api_key) = Inl (AttributeError a) \<longrightarrow>
      main iter net s api_key = Inl (AttributeError a))"
proof -
  have 1: "fst (make_request net mac api_key sent) = Inl (AttributeError ''items'')"
    if "net (sent @ [(mac, api_key)]) = Response 200 (Inr (JObj body))"
      and "map_of body ''vendorDetails'' = None"
    using that by (simp add: make_request_def dict_get_def MacAddressIO_init_def setattr_def)
  have 3: "MacAddressIO_init mac data = Inl (AttributeError ''items'')"
    if "\<forall>items. data \<noteq> JObj items"
    using that by (cases data) (simp_all add: MacAddressIO_init_def setattr_def)
  have 2: "(\<exists>r. MacAddressIO_init mac data = Inr r) \<longrightarrow> (\<exists>items. data = JObj items)"
    using 3 by force
  have 4: "main iter net s api_key = Inl (AttributeError a)"
    if "fst (get_mac_details iter net s api_key) = Inl (AttributeError a)"
    using main_of_error [OF that] by simp
  from 1 2 3 4 show ?thesis by blast
qed

text \<open>At a 200 reply with the empty JSON object, and at \<open>None\<close> for the constructor.\<close>

theorem missing_vendorDetails_attribute_error_witness:
  "fst (make_request (replying (Response 200 (Inr (JObj [])))) ''AABBCCDDEEFF'' (Some ''key'') [])
     = Inl (AttributeError ''items'') \<and>
   MacAddressIO_init ''AABBCCDDEEFF'' JNull = Inl (AttributeError ''items'') \<and>
   main remdups (replying (Response 200 (Inr (JObj [])))) ''AABBCCDDEEFF'' (Some ''key'')
     = Inl (AttributeError ''items'')"
proof -
  let ?net = "replying (Response 200 (Inr (JObj [])))"
  have g: "fst (get_mac_details remdups ?net ''AABBCCDDEEFF'' (Some ''key''))
             = Inl (AttributeError ''items'')"
    by code_simp
  from missing_vendorDetails_attribute_error [of ?net "[]" "''AABBCCDDEEFF''" "Some ''key''" "[]" JNull remdups
      "''AABBCCDDEEFF''" "''items''"] g
  show ?thesis by (simp add: replying_def)
qed

end
